theory Spec2Isabelle
  imports Main "HOL-Library.Word"
begin

section \<open>The data model of \<open>py_executable.cc\<close>\<close>

text \<open>
  A C++ data member \<open>x_\<close> is written \<open>x'\<close> here, since an Isabelle name cannot end with an
  underscore. Pointers to executables are addresses; a pointer that may be \<open>nullptr\<close> is an
  \<open>addr option\<close>. The collaborators whose code is in other files (clients, compiled
  programs, native buffers, devices, tracebacks, statuses) are opaque identities.
\<close>

type_synonym addr = nat
type_synonym PyClient = nat
type_synonym PjRtExecutable = nat
type_synonym PjRtBuffer = nat
type_synonym PjRtDevice = nat
type_synonym Traceback = nat
type_synonym Status = "nat \<times> string"

text \<open>
  Of \<open>ExecuteOptions\<close>, which is declared with the engine, the two members that this file
  assigns. \<open>Fingerprint32\<close> returns 32 bits, and \<open>launch_id\<close> holds them.
\<close>

record ExecuteOptions =
  untuple_result :: bool
  launch_id :: "32 word"

record PyExecutable =
  client' :: PyClient
  executable' :: PjRtExecutable
  traceback' :: Traceback
  fingerprint' :: "string option"
  options' :: ExecuteOptions
  prev' :: "addr option"
  next' :: "addr option"

text \<open>
  Modelled from the spec: the class \<open>PyBuffer\<close>, declared in \<open>py_buffer.h\<close>. Section 3 has
  it as "a host-visible handle wrapping one native device buffer plus the client and a
  traceback": the constructor stores its three arguments, and \<open>buffer()\<close> returns the
  native buffer.
\<close>

record PyBuffer =
  buf_client :: PyClient
  buffer :: PjRtBuffer
  buf_traceback :: Traceback

text \<open>
  Modelled from the spec: the constructor of \<open>PyBuffer\<close>, called as
  \<open>PyBuffer(client, buffer, traceback)\<close>; the new handle wraps \<open>buffer\<close> and carries the
  client and the traceback.
\<close>

definition PyBuffer_ctor :: "PyClient \<Rightarrow> PjRtBuffer \<Rightarrow> Traceback \<Rightarrow> PyBuffer" where
  "PyBuffer_ctor c b tb = \<lparr>buf_client = c, buffer = b, buf_traceback = tb\<rparr>"

text \<open>
  The part of the process state the file reads and writes: the head pointer
  \<open>executables_\<close> of every client, the live \<open>PyExecutable\<close> objects by address, whether the
  calling thread holds the interpreter lock, and how many tracebacks have been captured so
  far (\<open>Traceback::Get()\<close> returns a new token at every call).
\<close>

record heap =
  executables' :: "PyClient \<Rightarrow> addr option"
  objs :: "addr \<Rightarrow> PyExecutable option"
  gil_held :: bool
  tracebacks_taken :: nat

text \<open>
  What this file calls and does not define. \<open>Fingerprint32\<close> is the hash of
  \<open>tensorflow/core/platform/fingerprint.h\<close>, \<open>default_options\<close> a default-constructed
  \<open>ExecuteOptions\<close>, \<open>engine_Execute\<close>, \<open>engine_ExecuteOnLocalDevices\<close> and
  \<open>local_devices\<close> the member functions of \<open>PjRtExecutable\<close>, and \<open>Traceback_Get n\<close> the
  token that the \<open>n\<close>-th call of \<open>Traceback::Get()\<close> returns.
\<close>

record extern =
  Fingerprint32 :: "string \<Rightarrow> 32 word"
  default_options :: ExecuteOptions
  engine_Execute ::
    "PjRtExecutable \<Rightarrow> PjRtBuffer list \<Rightarrow> ExecuteOptions \<Rightarrow> Status + PjRtBuffer list"
  engine_ExecuteOnLocalDevices ::
    "PjRtExecutable \<Rightarrow> PjRtBuffer list list \<Rightarrow> ExecuteOptions
       \<Rightarrow> Status + PjRtBuffer list list"
  local_devices :: "PjRtExecutable \<Rightarrow> PjRtDevice list"
  Traceback_Get :: "nat \<Rightarrow> Traceback"

text \<open>
  A failed \<open>CHECK\<close> aborts the process; reading or writing through a pointer to an object
  that is not live has no defined behaviour. Both are results of the model.
\<close>

datatype fault = CheckFailed | InvalidPointer

section \<open>Construction and destruction\<close>

text \<open>Lines 40 to 45: the options of a new executable.\<close>

definition init_options :: "extern \<Rightarrow> string option \<Rightarrow> ExecuteOptions" where
  "init_options X fingerprint =
     (let opts = (default_options X)\<lparr>untuple_result := True\<rparr>
      in case fingerprint of
           None \<Rightarrow> opts
         | Some f \<Rightarrow> opts\<lparr>launch_id := Fingerprint32 X f\<rparr>)"

text \<open>The assignment \<open>client_->executables_ = v\<close>.\<close>

definition set_head :: "PyClient \<Rightarrow> addr option \<Rightarrow> heap \<Rightarrow> heap" where
  "set_head c v s = s\<lparr>executables' := (executables' s)(c := v)\<rparr>"

text \<open>The assignments \<open>p->prev_ = v\<close> and \<open>p->next_ = v\<close> behind an \<open>if (p)\<close>.\<close>

definition set_prev :: "addr option \<Rightarrow> addr option \<Rightarrow> heap \<Rightarrow> fault + heap" where
  "set_prev p v s =
     (case p of
        None \<Rightarrow> Inr s
      | Some a \<Rightarrow>
          (case objs s a of
             None \<Rightarrow> Inl InvalidPointer
           | Some e \<Rightarrow> Inr (s\<lparr>objs := (objs s)(a \<mapsto> e\<lparr>prev' := v\<rparr>)\<rparr>)))"

definition set_next :: "addr option \<Rightarrow> addr option \<Rightarrow> heap \<Rightarrow> fault + heap" where
  "set_next p v s =
     (case p of
        None \<Rightarrow> Inr s
      | Some a \<Rightarrow>
          (case objs s a of
             None \<Rightarrow> Inl InvalidPointer
           | Some e \<Rightarrow> Inr (s\<lparr>objs := (objs s)(a \<mapsto> e\<lparr>next' := v\<rparr>)\<rparr>)))"

text \<open>
  \<open>PyExecutable::PyExecutable\<close>, lines 25 to 46. \<open>this\<close> is the address of the object
  under construction.
\<close>

definition PyExecutable_ctor ::
  "extern \<Rightarrow> addr \<Rightarrow> PyClient \<Rightarrow> PjRtExecutable \<Rightarrow> Traceback \<Rightarrow> string option
     \<Rightarrow> heap \<Rightarrow> fault + heap" where
  "PyExecutable_ctor X this client executable traceback fingerprint s =
     (if \<not> gil_held s then Inl CheckFailed
      else
        let self = \<lparr>client' = client, executable' = executable, traceback' = traceback,
                    fingerprint' = fingerprint, options' = init_options X fingerprint,
                    prev' = None, next' = executables' s client\<rparr>;
            s1 = set_head client (Some this) (s\<lparr>objs := (objs s)(this \<mapsto> self)\<rparr>)
        in set_prev (next' self) (Some this) s1)"

definition release :: "addr \<Rightarrow> heap \<Rightarrow> heap" where
  "release this s = s\<lparr>objs := (objs s)(this := None)\<rparr>"

text \<open>
  \<open>PyExecutable::~PyExecutable\<close>, lines 48 to 59; the object is no longer live once its
  destructor has run.
\<close>

definition PyExecutable_dtor :: "addr \<Rightarrow> heap \<Rightarrow> fault + heap" where
  "PyExecutable_dtor this s =
     (if \<not> gil_held s then Inl CheckFailed
      else
        case objs s this of
          None \<Rightarrow> Inl InvalidPointer
        | Some self \<Rightarrow>
            (let s1 = (if executables' s (client' self) = Some this
                       then set_head (client' self) (next' self) s
                       else s)
             in (case set_next (prev' self) (next' self) s1 of
                   Inl f \<Rightarrow> Inl f
                 | Inr s2 \<Rightarrow>
                     (case set_prev (next' self) (prev' self) s2 of
                        Inl f \<Rightarrow> Inl f
                      | Inr s3 \<Rightarrow> Inr (release this s3)))))"

text \<open>Nothing constructed yet; the calling thread holds the interpreter lock.\<close>

definition empty_heap :: heap where
  "empty_heap =
     \<lparr>executables' = (\<lambda>c. None), objs = (\<lambda>a. None), gil_held = True, tracebacks_taken = 0\<rparr>"

text \<open>
  Histories of constructions and destructions. Storage for a new object never overlaps a
  live one, and an object is destroyed once, while it is live: \<open>well_formed L ps\<close> says
  that the history \<open>ps\<close> keeps to this when \<open>L\<close> are the live addresses at its start.
\<close>

datatype op =
  Construct addr PyClient PjRtExecutable Traceback "string option"
| Destroy addr

fun apply_op :: "extern \<Rightarrow> op \<Rightarrow> heap \<Rightarrow> fault + heap" where
  "apply_op X (Construct this c x t f) s = PyExecutable_ctor X this c x t f s"
| "apply_op X (Destroy this) s = PyExecutable_dtor this s"

fun run :: "extern \<Rightarrow> op list \<Rightarrow> heap \<Rightarrow> fault + heap" where
  "run X [] s = Inr s"
| "run X (p # ps) s = (case apply_op X p s of Inl f \<Rightarrow> Inl f | Inr s' \<Rightarrow> run X ps s')"

fun well_formed :: "addr set \<Rightarrow> op list \<Rightarrow> bool" where
  "well_formed L [] = True"
| "well_formed L (Construct this c x t f # ps) =
     (this \<notin> L \<and> well_formed (insert this L) ps)"
| "well_formed L (Destroy this # ps) = (this \<in> L \<and> well_formed (L - {this}) ps)"

text \<open>
  Reading a registry: follow \<open>next_\<close> (or \<open>prev_\<close>) from a pointer until \<open>nullptr\<close>,
  visiting at most \<open>n\<close> nodes. The result is \<open>None\<close> when the walk meets an object that
  is not live or does not end within \<open>n\<close> nodes.
\<close>

fun traverse_next :: "nat \<Rightarrow> heap \<Rightarrow> addr option \<Rightarrow> addr list option" where
  "traverse_next n s None = Some []"
| "traverse_next 0 s (Some a) = None"
| "traverse_next (Suc n) s (Some a) =
     (case objs s a of
        None \<Rightarrow> None
      | Some e \<Rightarrow> map_option ((#) a) (traverse_next n s (next' e)))"

fun traverse_prev :: "nat \<Rightarrow> heap \<Rightarrow> addr option \<Rightarrow> addr list option" where
  "traverse_prev n s None = Some []"
| "traverse_prev 0 s (Some a) = None"
| "traverse_prev (Suc n) s (Some a) =
     (case objs s a of
        None \<Rightarrow> None
      | Some e \<Rightarrow> map_option ((#) a) (traverse_prev n s (prev' e)))"

definition head_ptr :: "addr list \<Rightarrow> addr option" where
  "head_ptr xs = (case xs of [] \<Rightarrow> None | x # _ \<Rightarrow> Some x)"

definition tail_ptr :: "addr list \<Rightarrow> addr option" where
  "tail_ptr xs = (if xs = [] then None else Some (last xs))"

subsection \<open>The registries as lists\<close>

text \<open>The neighbours of an element in a list without repetitions.\<close>

fun succ_in :: "addr list \<Rightarrow> addr \<Rightarrow> addr option" where
  "succ_in (y # z # zs) x = (if x = y then Some z else succ_in (z # zs) x)"
| "succ_in zs x = None"

fun pred_in :: "addr list \<Rightarrow> addr \<Rightarrow> addr option" where
  "pred_in (y # z # zs) x = (if x = z then Some y else pred_in (z # zs) x)"
| "pred_in zs x = None"

text \<open>
  \<open>linked s R\<close>: in the heap \<open>s\<close>, the registry of every client \<open>c\<close> is the list \<open>R c\<close>,
  linked in both directions, and every live executable is in the registry of its client.
\<close>

definition linked :: "heap \<Rightarrow> (PyClient \<Rightarrow> addr list) \<Rightarrow> bool" where
  "linked s R \<longleftrightarrow>
     gil_held s \<and>
     (\<forall>c. distinct (R c) \<and> executables' s c = head_ptr (R c)) \<and>
     (\<forall>c. \<forall>a \<in> set (R c). \<exists>e. objs s a = Some e \<and> client' e = c \<and>
        next' e = succ_in (R c) a \<and> prev' e = pred_in (R c) a) \<and>
     (\<forall>a e. objs s a = Some e \<longrightarrow> a \<in> set (R (client' e)))"

text \<open>The effect of a construction or destruction on the lists.\<close>

fun abs_op :: "op \<Rightarrow> (PyClient \<Rightarrow> addr list) \<Rightarrow> (PyClient \<Rightarrow> addr list)" where
  "abs_op (Construct this c x t f) R = R(c := this # R c)"
| "abs_op (Destroy this) R = (\<lambda>c. remove1 this (R c))"

text \<open>A history that constructs the executables \<open>es\<close>, in order, for one client.\<close>

definition constructions ::
  "PyClient \<Rightarrow> (addr \<times> PjRtExecutable \<times> Traceback \<times> string option) list \<Rightarrow> op list" where
  "constructions c es = map (\<lambda>(this, x, t, f). Construct this c x t f) es"

section \<open>Execution\<close>

text \<open>
  A \<open>PyBuffer*\<close> argument is given by the object it points to; the code only reads it.
  Loop counters declared \<open>int\<close> are natural numbers here, which is the same for fewer than
  \<open>2^31\<close> computations.
\<close>

definition nullptr :: PjRtBuffer where
  "nullptr = 0"

text \<open>
  \<open>absl::c_transform(xs, out.begin() + i, f)\<close>: store \<open>f x\<close> for every \<open>x\<close> of \<open>xs\<close> in
  consecutive slots of \<open>out\<close>, from slot \<open>i\<close> on. A store after the last slot is outside
  the vector.
\<close>

fun c_transform :: "'a list \<Rightarrow> 'b list \<Rightarrow> nat \<Rightarrow> ('a \<Rightarrow> 'b) \<Rightarrow> fault + 'b list" where
  "c_transform [] out i f = Inr out"
| "c_transform (x # xs) out i f =
     (if i < length out then c_transform xs (out[i := f x]) (Suc i) f
      else Inl InvalidPointer)"

text \<open>\<open>v.resize(n)\<close> on a vector of pointers.\<close>

definition resize :: "PjRtBuffer list \<Rightarrow> nat \<Rightarrow> PjRtBuffer list" where
  "resize v n = take n v @ replicate (n - length v) nullptr"

text \<open>Lines 92 to 94: the native arguments of \<open>Execute\<close>.\<close>

definition arg_buffers_of :: "PyBuffer list \<Rightarrow> fault + PjRtBuffer list" where
  "arg_buffers_of args = c_transform args (replicate (length args) nullptr) 0 buffer"

text \<open>Lines 114 to 119: the native arguments of \<open>ExecuteOnLocalDevices\<close>.\<close>

function fill_arg_buffers ::
  "PyBuffer list list \<Rightarrow> PjRtBuffer list list \<Rightarrow> nat \<Rightarrow> fault + PjRtBuffer list list" where
  "fill_arg_buffers args arg_buffers computation =
     (if computation < length args then
        (if computation < length arg_buffers then
           (case c_transform (args ! computation)
                   (resize (arg_buffers ! computation) (length (args ! computation))) 0 buffer of
              Inl f \<Rightarrow> Inl f
            | Inr row \<Rightarrow>
                fill_arg_buffers args (arg_buffers[computation := row]) (Suc computation))
         else Inl InvalidPointer)
      else Inr arg_buffers)"
  by pat_completeness auto
termination
  by (relation "measure (\<lambda>(args, arg_buffers, computation). length args - computation)") auto

definition nested_arg_buffers_of :: "PyBuffer list list \<Rightarrow> fault + PjRtBuffer list list" where
  "nested_arg_buffers_of args = fill_arg_buffers args (replicate (length args) []) 0"

text \<open>
  The loops of lines 80 to 83 and 101 to 104: one \<open>push_back\<close> of a new \<open>PyBuffer\<close> for
  every native output, onto \<open>outputs\<close>.
\<close>

fun push_outputs ::
  "PyBuffer list \<Rightarrow> PyClient \<Rightarrow> Traceback \<Rightarrow> PjRtBuffer list \<Rightarrow> PyBuffer list" where
  "push_outputs outputs c tb [] = outputs"
| "push_outputs outputs c tb (b # bs) =
     push_outputs (outputs @ [PyBuffer_ctor c b tb]) c tb bs"

text \<open>Lines 126 to 132: the same for every computation.\<close>

function push_groups ::
  "PyBuffer list list \<Rightarrow> PyClient \<Rightarrow> Traceback \<Rightarrow> PjRtBuffer list list \<Rightarrow> nat
     \<Rightarrow> fault + PyBuffer list list" where
  "push_groups outputs c tb output_buffers computation =
     (if computation < length output_buffers then
        (if computation < length outputs then
           push_groups
             (outputs[computation :=
                push_outputs (outputs ! computation) c tb (output_buffers ! computation)])
             c tb output_buffers (Suc computation)
         else Inl InvalidPointer)
      else Inr outputs)"
  by pat_completeness auto
termination
  by (relation "measure (\<lambda>(outputs, c, tb, output_buffers, computation).
        length output_buffers - computation)") auto

text \<open>\<open>Traceback::Get()\<close>: the next token, and one more traceback taken.\<close>

definition Traceback_Get_call :: "extern \<Rightarrow> heap \<Rightarrow> Traceback \<times> heap" where
  "Traceback_Get_call X s =
     (Traceback_Get X (tracebacks_taken s), s\<lparr>tracebacks_taken := Suc (tracebacks_taken s)\<rparr>)"

text \<open>
  \<open>py::gil_scoped_release\<close>: the lock is given up where the object is declared and taken
  again where its scope ends, also when \<open>TF_ASSIGN_OR_RETURN\<close> returns from inside.
\<close>

definition gil_release :: "heap \<Rightarrow> heap" where
  "gil_release s = s\<lparr>gil_held := False\<rparr>"

definition gil_acquire :: "heap \<Rightarrow> heap" where
  "gil_acquire s = s\<lparr>gil_held := True\<rparr>"

text \<open>\<open>PyExecutable::PjRtExecute\<close>, lines 70 to 85.\<close>

definition PjRtExecute ::
  "extern \<Rightarrow> addr \<Rightarrow> PjRtBuffer list \<Rightarrow> heap
     \<Rightarrow> fault + ((Status + PyBuffer list) \<times> heap)" where
  "PjRtExecute X this args s =
     (case objs s this of
        None \<Rightarrow> Inl InvalidPointer
      | Some self \<Rightarrow>
          (let s1 = gil_release s
           in (case engine_Execute X (executable' self) args (options' self) of
                 Inl status \<Rightarrow> Inr (Inl status, gil_acquire s1)
               | Inr output_buffers \<Rightarrow>
                   (let s2 = gil_acquire s1;
                        (traceback, s3) = Traceback_Get_call X s2
                    in Inr (Inr (push_outputs [] (client' self) traceback output_buffers),
                            s3)))))"

text \<open>\<open>PyExecutable::Execute\<close>, lines 87 to 106.\<close>

definition Execute ::
  "extern \<Rightarrow> addr \<Rightarrow> PyBuffer list \<Rightarrow> heap
     \<Rightarrow> fault + ((Status + PyBuffer list) \<times> heap)" where
  "Execute X this args s =
     (case objs s this of
        None \<Rightarrow> Inl InvalidPointer
      | Some self \<Rightarrow>
          (let s1 = gil_release s
           in (case arg_buffers_of args of
                 Inl f \<Rightarrow> Inl f
               | Inr arg_buffers \<Rightarrow>
                   (case engine_Execute X (executable' self) arg_buffers (options' self) of
                      Inl status \<Rightarrow> Inr (Inl status, gil_acquire s1)
                    | Inr output_buffers \<Rightarrow>
                        (let s2 = gil_acquire s1;
                             (traceback, s3) = Traceback_Get_call X s2
                         in Inr (Inr (push_outputs [] (client' self) traceback output_buffers),
                                 s3))))))"

text \<open>\<open>PyExecutable::ExecuteOnLocalDevices\<close>, lines 108 to 134.\<close>

definition ExecuteOnLocalDevices ::
  "extern \<Rightarrow> addr \<Rightarrow> PyBuffer list list \<Rightarrow> heap
     \<Rightarrow> fault + ((Status + PyBuffer list list) \<times> heap)" where
  "ExecuteOnLocalDevices X this args s =
     (case objs s this of
        None \<Rightarrow> Inl InvalidPointer
      | Some self \<Rightarrow>
          (let s1 = gil_release s
           in (case nested_arg_buffers_of args of
                 Inl f \<Rightarrow> Inl f
               | Inr arg_buffers \<Rightarrow>
                   (case engine_ExecuteOnLocalDevices X (executable' self) arg_buffers
                           (options' self) of
                      Inl status \<Rightarrow> Inr (Inl status, gil_acquire s1)
                    | Inr output_buffers \<Rightarrow>
                        (let s2 = gil_acquire s1;
                             (traceback, s3) = Traceback_Get_call X s2
                         in (case push_groups (replicate (length output_buffers) [])
                                    (client' self) traceback output_buffers 0 of
                               Inl f \<Rightarrow> Inl f
                             | Inr outputs \<Rightarrow> Inr (Inr outputs, s3)))))))"

text \<open>
  \<open>PyExecutable::LocalDevices\<close>, lines 61 to 68. \<open>WrapWithClient\<close> is declared with the
  client and is a parameter here.
\<close>

fun push_devices ::
  "'w list \<Rightarrow> (PyClient \<Rightarrow> PjRtDevice \<Rightarrow> 'w) \<Rightarrow> PyClient \<Rightarrow> PjRtDevice list \<Rightarrow> 'w list" where
  "push_devices devices WrapWithClient c [] = devices"
| "push_devices devices WrapWithClient c (device # ds) =
     push_devices (devices @ [WrapWithClient c device]) WrapWithClient c ds"

definition LocalDevices ::
  "extern \<Rightarrow> (PyClient \<Rightarrow> PjRtDevice \<Rightarrow> 'w) \<Rightarrow> addr \<Rightarrow> heap \<Rightarrow> fault + 'w list" where
  "LocalDevices X WrapWithClient this s =
     (case objs s this of
        None \<Rightarrow> Inl InvalidPointer
      | Some self \<Rightarrow>
          Inr (push_devices [] WrapWithClient (client' self)
                 (local_devices X (executable' self))))"

section \<open>Execution while other threads run\<close>

text \<open>
  The engine is called with the interpreter lock given up, so that other threads run
  meanwhile. What they do to the state of this file is a history of constructions and
  destructions: they take the lock for it and give it up again.
\<close>

definition while_released :: "extern \<Rightarrow> op list \<Rightarrow> heap \<Rightarrow> fault + heap" where
  "while_released X ops s =
     (case run X ops (gil_acquire s) of
        Inl f \<Rightarrow> Inl f
      | Inr s' \<Rightarrow> Inr (gil_release s'))"

text \<open>
  The three execution functions with the history \<open>ops\<close> of the other threads taking place
  during the engine call. \<open>executable_\<close> and \<open>options_\<close> are read for the call, \<open>client_\<close>
  after it, for the new buffers.
\<close>

definition PjRtExecute_among ::
  "extern \<Rightarrow> op list \<Rightarrow> addr \<Rightarrow> PjRtBuffer list \<Rightarrow> heap
     \<Rightarrow> fault + ((Status + PyBuffer list) \<times> heap)" where
  "PjRtExecute_among X ops this args s =
     (case objs s this of
        None \<Rightarrow> Inl InvalidPointer
      | Some self \<Rightarrow>
          (let s1 = gil_release s
           in (case while_released X ops s1 of
                 Inl f \<Rightarrow> Inl f
               | Inr s1' \<Rightarrow>
                   (case engine_Execute X (executable' self) args (options' self) of
                      Inl status \<Rightarrow> Inr (Inl status, gil_acquire s1')
                    | Inr output_buffers \<Rightarrow>
                        (let s2 = gil_acquire s1';
                             (traceback, s3) = Traceback_Get_call X s2
                         in (case objs s3 this of
                               None \<Rightarrow> Inl InvalidPointer
                             | Some self' \<Rightarrow>
                                 Inr (Inr (push_outputs [] (client' self') traceback
                                             output_buffers), s3)))))))"

definition Execute_among ::
  "extern \<Rightarrow> op list \<Rightarrow> addr \<Rightarrow> PyBuffer list \<Rightarrow> heap
     \<Rightarrow> fault + ((Status + PyBuffer list) \<times> heap)" where
  "Execute_among X ops this args s =
     (case objs s this of
        None \<Rightarrow> Inl InvalidPointer
      | Some self \<Rightarrow>
          (let s1 = gil_release s
           in (case arg_buffers_of args of
                 Inl f \<Rightarrow> Inl f
               | Inr arg_buffers \<Rightarrow>
                   (case while_released X ops s1 of
                      Inl f \<Rightarrow> Inl f
                    | Inr s1' \<Rightarrow>
                        (case engine_Execute X (executable' self) arg_buffers
                                (options' self) of
                           Inl status \<Rightarrow> Inr (Inl status, gil_acquire s1')
                         | Inr output_buffers \<Rightarrow>
                             (let s2 = gil_acquire s1';
                                  (traceback, s3) = Traceback_Get_call X s2
                              in (case objs s3 this of
                                    None \<Rightarrow> Inl InvalidPointer
                                  | Some self' \<Rightarrow>
                                      Inr (Inr (push_outputs [] (client' self') traceback
                                                  output_buffers), s3))))))))"

definition ExecuteOnLocalDevices_among ::
  "extern \<Rightarrow> op list \<Rightarrow> addr \<Rightarrow> PyBuffer list list \<Rightarrow> heap
     \<Rightarrow> fault + ((Status + PyBuffer list list) \<times> heap)" where
  "ExecuteOnLocalDevices_among X ops this args s =
     (case objs s this of
        None \<Rightarrow> Inl InvalidPointer
      | Some self \<Rightarrow>
          (let s1 = gil_release s
           in (case nested_arg_buffers_of args of
                 Inl f \<Rightarrow> Inl f
               | Inr arg_buffers \<Rightarrow>
                   (case while_released X ops s1 of
                      Inl f \<Rightarrow> Inl f
                    | Inr s1' \<Rightarrow>
                        (case engine_ExecuteOnLocalDevices X (executable' self) arg_buffers
                                (options' self) of
                           Inl status \<Rightarrow> Inr (Inl status, gil_acquire s1')
                         | Inr output_buffers \<Rightarrow>
                             (let s2 = gil_acquire s1';
                                  (traceback, s3) = Traceback_Get_call X s2
                              in (case objs s3 this of
                                    None \<Rightarrow> Inl InvalidPointer
                                  | Some self' \<Rightarrow>
                                      (case push_groups (replicate (length output_buffers) [])
                                              (client' self') traceback output_buffers 0 of
                                         Inl f \<Rightarrow> Inl f
                                       | Inr outputs \<Rightarrow> Inr (Inr outputs, s3)))))))))"




text \<open>An engine that returns its arguments, one that fails, and the rest of an environment.\<close>

definition echo_extern :: extern where
  "echo_extern =
     \<lparr>Fingerprint32 = (\<lambda>f. of_nat (length f)),
      default_options = \<lparr>untuple_result = False, launch_id = 0\<rparr>,
      engine_Execute = (\<lambda>x args opts. Inr args),
      engine_ExecuteOnLocalDevices = (\<lambda>x args opts. Inr args),
      local_devices = (\<lambda>x. [7, 8]),
      Traceback_Get = (\<lambda>n. 100 + n)\<rparr>"

definition failing_extern :: extern where
  "failing_extern =
     echo_extern\<lparr>engine_Execute := (\<lambda>x args opts. Inl (13, ''device fault'')),
                  engine_ExecuteOnLocalDevices := (\<lambda>x args opts. Inl (13, ''device fault''))\<rparr>"

text \<open>Three executables to construct, in this order.\<close>

definition three_executables :: "(addr \<times> PjRtExecutable \<times> Traceback \<times> string option) list" where
  "three_executables = [(1, 5, 9, None), (2, 6, 9, Some ''ab''), (3, 7, 9, None)]"

text \<open>A heap with one live executable, at address 1, and some buffers.\<close>

definition example_executable :: PyExecutable where
  "example_executable =
     \<lparr>client' = 0, executable' = 5, traceback' = 9, fingerprint' = None,
      options' = \<lparr>untuple_result = True, launch_id = 0\<rparr>, prev' = None, next' = None\<rparr>"

definition example_heap :: heap where
  "example_heap =
     \<lparr>executables' = (\<lambda>c. if c = 0 then Some 1 else None),
      objs = (\<lambda>a. if a = 1 then Some example_executable else None),
      gil_held = True, tracebacks_taken = 0\<rparr>"

definition example_buffer :: "PjRtBuffer \<Rightarrow> PyBuffer" where
  "example_buffer b = PyBuffer_ctor 0 b 50"

definition example_groups :: "PyBuffer list list" where
  "example_groups =
     [[example_buffer 1, example_buffer 2], [example_buffer 3],
      [example_buffer 4, example_buffer 5, example_buffer 6]]"

section \<open>Neighbours in a list\<close>

lemma succ_in_notin: "x \<notin> set xs \<Longrightarrow> succ_in xs x = None"
  by (induction xs x rule: succ_in.induct) auto

lemma pred_in_notin: "x \<notin> set xs \<Longrightarrow> pred_in xs x = None"
  by (induction xs x rule: pred_in.induct) auto

lemma succ_in_mem: "succ_in xs x = Some y \<Longrightarrow> x \<in> set xs \<and> y \<in> set xs"
  by (induction xs x rule: succ_in.induct) (auto split: if_splits)

lemma pred_in_mem: "pred_in xs x = Some y \<Longrightarrow> x \<in> set xs \<and> y \<in> set xs"
  by (induction xs x rule: pred_in.induct) (auto split: if_splits)

lemma succ_in_Cons_same: "succ_in (e # xs) e = head_ptr xs"
  by (cases xs) (auto simp: head_ptr_def)

lemma succ_in_Cons_other: "x \<noteq> e \<Longrightarrow> succ_in (e # xs) x = succ_in xs x"
  by (cases xs) auto

lemma pred_in_Cons_same: "e \<notin> set xs \<Longrightarrow> pred_in (e # xs) e = None"
  by (cases xs) (auto simp: pred_in_notin)

lemma pred_in_Cons_other:
  "x \<noteq> e \<Longrightarrow> pred_in (e # xs) x = (if head_ptr xs = Some x then Some e else pred_in xs x)"
  by (cases xs) (auto simp: head_ptr_def)

lemma pred_in_head: "distinct xs \<Longrightarrow> head_ptr xs = Some x \<Longrightarrow> pred_in xs x = None"
  by (cases xs) (auto simp: head_ptr_def pred_in_Cons_same)

lemma succ_pred: "distinct xs \<Longrightarrow> succ_in xs x = Some y \<longleftrightarrow> pred_in xs y = Some x"
  by (induction xs x rule: succ_in.induct)
     (auto simp: pred_in_Cons_same dest: pred_in_mem succ_in_mem)

lemma head_ptr_remove1:
  "distinct xs \<Longrightarrow> head_ptr (remove1 e xs) = (if head_ptr xs = Some e then succ_in xs e else head_ptr xs)"
  by (cases xs) (auto simp: head_ptr_def succ_in_Cons_same simp del: succ_in.simps)

lemma succ_in_remove1:
  "distinct xs \<Longrightarrow> x \<noteq> e \<Longrightarrow>
   succ_in (remove1 e xs) x = (if succ_in xs x = Some e then succ_in xs e else succ_in xs x)"
proof (induction xs)
  case Nil
  then show ?case by simp
next
  case (Cons a xs)
  show ?case
  proof (cases "a = e")
    case True
    with Cons.prems have "succ_in xs x \<noteq> Some e"
      by (auto dest: succ_in_mem)
    with True Cons.prems show ?thesis
      by (simp add: succ_in_Cons_other del: succ_in.simps)
  next
    case False
    show ?thesis
    proof (cases "x = a")
      case True
      with False Cons.prems show ?thesis
        by (simp add: succ_in_Cons_same succ_in_Cons_other head_ptr_remove1 del: succ_in.simps)
    next
      case xa: False
      with False Cons show ?thesis
        by (simp add: succ_in_Cons_other del: succ_in.simps)
    qed
  qed
qed

lemma pred_in_remove1:
  "distinct xs \<Longrightarrow> x \<noteq> e \<Longrightarrow>
   pred_in (remove1 e xs) x = (if pred_in xs x = Some e then pred_in xs e else pred_in xs x)"
proof (induction xs)
  case Nil
  then show ?case by simp
next
  case (Cons a xs)
  show ?case
  proof (cases "a = e")
    case True
    with Cons.prems have "pred_in xs x \<noteq> Some e"
      by (auto dest: pred_in_mem)
    with True Cons.prems show ?thesis
      by (simp add: pred_in_Cons_other pred_in_Cons_same pred_in_head del: pred_in.simps)
  next
    case False
    show ?thesis
    proof (cases "x = a")
      case True
      with False Cons.prems show ?thesis
        by (simp add: pred_in_Cons_same del: pred_in.simps)
    next
      case xa: False
      have sp: "succ_in xs e = Some x \<longleftrightarrow> pred_in xs x = Some e"
        using Cons.prems by (simp add: succ_pred)
      from xa False Cons show ?thesis
        by (simp add: pred_in_Cons_other head_ptr_remove1 sp del: pred_in.simps)
    qed
  qed
qed

lemma pred_in_snoc_other: "x \<noteq> y \<Longrightarrow> pred_in (xs @ [y]) x = pred_in xs x"
  by (induction xs x rule: pred_in.induct) auto

lemma pred_in_snoc_same: "y \<notin> set xs \<Longrightarrow> pred_in (xs @ [y]) y = tail_ptr xs"
  by (induction xs y rule: pred_in.induct) (auto simp: tail_ptr_def)

lemma traverse_next_list:
  "distinct xs \<Longrightarrow> \<forall>a \<in> set xs. \<exists>e. objs s a = Some e \<and> next' e = succ_in xs a \<Longrightarrow>
   traverse_next (length xs) s (head_ptr xs) = Some xs"
proof (induction xs)
  case Nil
  then show ?case by (simp add: head_ptr_def)
next
  case (Cons y zs)
  from Cons.prems obtain e where e: "objs s y = Some e" "next' e = head_ptr zs"
    by (auto simp: succ_in_Cons_same simp del: succ_in.simps)
  have "\<forall>a \<in> set zs. \<exists>e. objs s a = Some e \<and> next' e = succ_in zs a"
  proof
    fix a assume a: "a \<in> set zs"
    with Cons.prems have "a \<noteq> y" by auto
    then have "succ_in (y # zs) a = succ_in zs a" by (rule succ_in_Cons_other)
    with Cons.prems a show "\<exists>e. objs s a = Some e \<and> next' e = succ_in zs a"
      by (auto simp del: succ_in.simps)
  qed
  with Cons have "traverse_next (length zs) s (head_ptr zs) = Some zs" by simp
  with e show ?case by (simp add: head_ptr_def)
qed

lemma traverse_prev_list:
  "distinct xs \<Longrightarrow> \<forall>a \<in> set xs. \<exists>e. objs s a = Some e \<and> prev' e = pred_in xs a \<Longrightarrow>
   traverse_prev (length xs) s (tail_ptr xs) = Some (rev xs)"
proof (induction xs rule: rev_induct)
  case Nil
  then show ?case by (simp add: tail_ptr_def)
next
  case (snoc y zs)
  from snoc.prems obtain e where e: "objs s y = Some e" "prev' e = tail_ptr zs"
    by (auto simp: pred_in_snoc_same)
  have "\<forall>a \<in> set zs. \<exists>e. objs s a = Some e \<and> prev' e = pred_in zs a"
  proof
    fix a assume a: "a \<in> set zs"
    with snoc.prems have "a \<noteq> y" by auto
    then have "pred_in (zs @ [y]) a = pred_in zs a" by (rule pred_in_snoc_other)
    with snoc.prems a show "\<exists>e. objs s a = Some e \<and> prev' e = pred_in zs a"
      by auto
  qed
  with snoc have "traverse_prev (length zs) s (tail_ptr zs) = Some (rev zs)" by simp
  with e show ?case by (simp add: tail_ptr_def)
qed

lemma traverse_next_fuel:
  "traverse_next n s p = Some xs \<Longrightarrow> traverse_next (n + k) s p = Some xs"
proof (induction n s p arbitrary: xs rule: traverse_next.induct)
  case (1 n s)
  then show ?case by simp
next
  case (2 s a)
  then show ?case by simp
next
  case (3 n s a)
  then show ?case by (auto split: option.splits)
qed

lemma traverse_next_unique:
  assumes "traverse_next n s p = Some xs" "traverse_next m s p = Some ys"
  shows "xs = ys"
proof -
  from assms(1) have "traverse_next (n + m) s p = Some xs" by (rule traverse_next_fuel)
  moreover from assms(2) have "traverse_next (m + n) s p = Some ys" by (rule traverse_next_fuel)
  ultimately show ?thesis by (simp add: add.commute)
qed

section \<open>The registries stay linked\<close>

lemma head_ptr_mem: "head_ptr xs = Some a \<Longrightarrow> a \<in> set xs"
  by (cases xs) (auto simp: head_ptr_def)

lemma linked_live: "linked s R \<Longrightarrow> a \<in> set (R c) \<Longrightarrow> \<exists>e. objs s a = Some e \<and> client' e = c"
  unfolding linked_def by blast

lemma ctor_effect:
  assumes L: "linked s R" and fresh: "objs s this = None"
  obtains s' where
    "PyExecutable_ctor X this c x t f s = Inr s'"
    "gil_held s'" "tracebacks_taken s' = tracebacks_taken s"
    "executables' s' = (executables' s)(c := Some this)"
    "objs s' this = Some \<lparr>client' = c, executable' = x, traceback' = t,
        fingerprint' = f, options' = init_options X f, prev' = None, next' = head_ptr (R c)\<rparr>"
    "\<And>a. a \<noteq> this \<Longrightarrow> objs s' a =
        (if head_ptr (R c) = Some a then map_option (\<lambda>e. e\<lparr>prev' := Some this\<rparr>) (objs s a)
         else objs s a)"
proof (cases "head_ptr (R c)")
  case None
  with L have h: "executables' s c = None" "gil_held s" by (auto simp: linked_def)
  show ?thesis
    by (rule that [of "set_head c (Some this) (s\<lparr>objs := (objs s)(this \<mapsto>
         \<lparr>client' = c, executable' = x, traceback' = t, fingerprint' = f,
          options' = init_options X f, prev' = None, next' = None\<rparr>)\<rparr>)"])
       (simp_all add: PyExecutable_ctor_def set_prev_def set_head_def h None)
next
  case (Some y)
  with L have h: "executables' s c = Some y" "gil_held s" by (auto simp: linked_def)
  from Some have "y \<in> set (R c)" by (rule head_ptr_mem)
  with L obtain ey where ey: "objs s y = Some ey" by (auto dest: linked_live)
  with fresh have ne: "y \<noteq> this" "this \<noteq> y" by auto
  let ?self = "\<lparr>client' = c, executable' = x, traceback' = t, fingerprint' = f,
          options' = init_options X f, prev' = None, next' = Some y\<rparr>"
  let ?s1 = "set_head c (Some this) (s\<lparr>objs := (objs s)(this \<mapsto> ?self)\<rparr>)"
  show ?thesis
    by (rule that [of "?s1\<lparr>objs := (objs ?s1)(y \<mapsto> ey\<lparr>prev' := Some this\<rparr>)\<rparr>"])
       (auto simp: PyExecutable_ctor_def set_prev_def set_head_def h Some ey ne)
qed

lemma linked_fresh: "linked s R \<Longrightarrow> objs s this = None \<Longrightarrow> this \<notin> set (R c)"
  by (auto dest: linked_live)

lemma linked_client_unique:
  "linked s R \<Longrightarrow> a \<in> set (R c) \<Longrightarrow> a \<in> set (R c') \<Longrightarrow> c = c'"
  using linked_live [of s R a c] linked_live [of s R a c'] by auto

lemma ctor_linked:
  assumes L: "linked s R" and fresh: "objs s this = None"
  shows "\<exists>s'. PyExecutable_ctor X this c x t f s = Inr s' \<and> linked s' (R(c := this # R c)) \<and>
           (\<forall>a. objs s' a = None \<longleftrightarrow> a \<noteq> this \<and> objs s a = None)"
proof -
  from L fresh obtain s' where
    run: "PyExecutable_ctor X this c x t f s = Inr s'" and
    gil: "gil_held s'" and
    tt: "tracebacks_taken s' = tracebacks_taken s" and
    heads: "executables' s' = (executables' s)(c := Some this)" and
    self: "objs s' this = Some \<lparr>client' = c, executable' = x, traceback' = t,
        fingerprint' = f, options' = init_options X f, prev' = None, next' = head_ptr (R c)\<rparr>" and
    others: "\<And>a. a \<noteq> this \<Longrightarrow> objs s' a =
        (if head_ptr (R c) = Some a then map_option (\<lambda>e. e\<lparr>prev' := Some this\<rparr>) (objs s a)
         else objs s a)"
    by (rule ctor_effect [where X = X and c = c and x = x and t = t and f = f]) blast
  have notin: "this \<notin> set (R c')" for c'
    using L fresh by (rule linked_fresh)
  have dist: "distinct (R c')" and hd: "executables' s c' = head_ptr (R c')" for c'
    using L by (auto simp: linked_def)
  have c1: "distinct ((R(c := this # R c)) c') \<and>
            executables' s' c' = head_ptr ((R(c := this # R c)) c')" for c'
    using notin dist hd by (simp add: heads head_ptr_def)
  have c2: "\<exists>e. objs s' a = Some e \<and> client' e = c' \<and>
              next' e = succ_in ((R(c := this # R c)) c') a \<and>
              prev' e = pred_in ((R(c := this # R c)) c') a"
    if a: "a \<in> set ((R(c := this # R c)) c')" for c' a
  proof (cases "a = this")
    case True
    with a notin have "c' = c" by (auto split: if_splits)
    with True self notin show ?thesis
      by (simp add: succ_in_Cons_same pred_in_Cons_same del: succ_in.simps pred_in.simps)
  next
    case False
    with a have mem: "a \<in> set (R c')" by (auto split: if_splits)
    with L obtain e where e: "objs s a = Some e" "client' e = c'"
      "next' e = succ_in (R c') a" "prev' e = pred_in (R c') a"
      unfolding linked_def by blast
    show ?thesis
    proof (cases "c' = c")
      case True
      with False e others [OF False] show ?thesis
        by (simp add: succ_in_Cons_other pred_in_Cons_other del: succ_in.simps pred_in.simps)
    next
      case cc: False
      have "head_ptr (R c) \<noteq> Some a"
      proof
        assume "head_ptr (R c) = Some a"
        then have "a \<in> set (R c)" by (rule head_ptr_mem)
        with L mem have "c' = c" by (rule linked_client_unique [OF _ _ _])
        with cc show False by simp
      qed
      with cc e others [OF False] show ?thesis by simp
    qed
  qed
  have c3: "a \<in> set ((R(c := this # R c)) (client' e))" if ae: "objs s' a = Some e" for a e
  proof (cases "a = this")
    case True
    with ae self show ?thesis by auto
  next
    case False
    from ae others [OF False] obtain e0 where "objs s a = Some e0" "client' e0 = client' e"
      by (auto split: if_splits)
    with L have "a \<in> set (R (client' e))" unfolding linked_def by metis
    then show ?thesis by auto
  qed
  have c4: "objs s' a = None \<longleftrightarrow> a \<noteq> this \<and> objs s a = None" for a
    using self others [of a] by (cases "a = this") auto
  from gil c1 c2 c3 have "linked s' (R(c := this # R c))"
    unfolding linked_def by blast
  with run c4 show ?thesis by blast
qed

lemma set_next_live:
  assumes "\<And>a. p = Some a \<Longrightarrow> objs s a \<noteq> None"
  shows "\<exists>s'. set_next p v s = Inr s' \<and> gil_held s' = gil_held s \<and>
           executables' s' = executables' s \<and> tracebacks_taken s' = tracebacks_taken s \<and>
           (\<forall>a. objs s' a = map_option (\<lambda>e. if p = Some a then e\<lparr>next' := v\<rparr> else e) (objs s a))"
proof (cases p)
  case None
  then show ?thesis by (simp add: set_next_def option.map_ident)
next
  case (Some b)
  with assms obtain e where "objs s b = Some e" by auto
  with Some show ?thesis by (auto simp: set_next_def option.map_ident)
qed

lemma set_prev_live:
  assumes "\<And>a. p = Some a \<Longrightarrow> objs s a \<noteq> None"
  shows "\<exists>s'. set_prev p v s = Inr s' \<and> gil_held s' = gil_held s \<and>
           executables' s' = executables' s \<and> tracebacks_taken s' = tracebacks_taken s \<and>
           (\<forall>a. objs s' a = map_option (\<lambda>e. if p = Some a then e\<lparr>prev' := v\<rparr> else e) (objs s a))"
proof (cases p)
  case None
  then show ?thesis by (simp add: set_prev_def option.map_ident)
next
  case (Some b)
  with assms obtain e where "objs s b = Some e" by auto
  with Some show ?thesis by (auto simp: set_prev_def option.map_ident)
qed

lemma dtor_effect:
  assumes L: "linked s R" and live: "objs s this = Some self"
  shows "\<exists>s'. PyExecutable_dtor this s = Inr s' \<and> gil_held s' \<and>
           tracebacks_taken s' = tracebacks_taken s \<and>
           executables' s' = (executables' s)(client' self :=
              (if head_ptr (R (client' self)) = Some this then next' self
               else head_ptr (R (client' self)))) \<and>
           objs s' this = None \<and>
           (\<forall>a. a \<noteq> this \<longrightarrow> objs s' a =
              map_option (\<lambda>e. if next' self = Some a then e\<lparr>prev' := prev' self\<rparr> else e)
                (map_option (\<lambda>e. if prev' self = Some a then e\<lparr>next' := next' self\<rparr> else e)
                   (objs s a)))"
proof -
  let ?c = "client' self"
  from L live have mem: "this \<in> set (R ?c)" unfolding linked_def by blast
  with L live have nx: "next' self = succ_in (R ?c) this" and pv: "prev' self = pred_in (R ?c) this"
    unfolding linked_def by fastforce+
  from L have gil: "gil_held s" and hd: "executables' s ?c = head_ptr (R ?c)"
    by (auto simp: linked_def)
  let ?s1 = "if executables' s ?c = Some this then set_head ?c (next' self) s else s"
  have s1: "gil_held ?s1" "tracebacks_taken ?s1 = tracebacks_taken s" "objs ?s1 = objs s"
    "executables' ?s1 = (executables' s)(?c :=
        (if head_ptr (R ?c) = Some this then next' self else head_ptr (R ?c)))"
    using gil hd by (auto simp: set_head_def)
  have "objs ?s1 a \<noteq> None" if "prev' self = Some a" for a
  proof -
    from that pv have "a \<in> set (R ?c)" by (auto dest: pred_in_mem)
    with L show ?thesis unfolding s1 by (auto dest: linked_live)
  qed
  then obtain s2 where s2: "set_next (prev' self) (next' self) ?s1 = Inr s2"
    "gil_held s2 = gil_held ?s1" "executables' s2 = executables' ?s1"
    "tracebacks_taken s2 = tracebacks_taken ?s1"
    "\<And>a. objs s2 a = map_option (\<lambda>e. if prev' self = Some a then e\<lparr>next' := next' self\<rparr> else e) (objs ?s1 a)"
    using set_next_live [of "prev' self" ?s1 "next' self"] by blast
  have "objs s2 a \<noteq> None" if "next' self = Some a" for a
  proof -
    from that nx have "a \<in> set (R ?c)" by (auto dest: succ_in_mem)
    with L show ?thesis unfolding s2 s1 by (auto dest: linked_live)
  qed
  then obtain s3 where s3: "set_prev (next' self) (prev' self) s2 = Inr s3"
    "gil_held s3 = gil_held s2" "executables' s3 = executables' s2"
    "tracebacks_taken s3 = tracebacks_taken s2"
    "\<And>a. objs s3 a = map_option (\<lambda>e. if next' self = Some a then e\<lparr>prev' := prev' self\<rparr> else e) (objs s2 a)"
    using set_prev_live [of "next' self" s2 "prev' self"] by blast
  have "PyExecutable_dtor this s = Inr (release this s3)"
    using gil live s2(1) s3(1) by (simp add: PyExecutable_dtor_def)
  moreover have "gil_held (release this s3)" "tracebacks_taken (release this s3) = tracebacks_taken s"
    "objs (release this s3) this = None"
    "executables' (release this s3) = (executables' s)(?c :=
        (if head_ptr (R ?c) = Some this then next' self else head_ptr (R ?c)))"
    using s1 s2(2-4) s3(2-4) by (simp_all add: release_def)
  moreover have "\<forall>a. a \<noteq> this \<longrightarrow> objs (release this s3) a =
              map_option (\<lambda>e. if next' self = Some a then e\<lparr>prev' := prev' self\<rparr> else e)
                (map_option (\<lambda>e. if prev' self = Some a then e\<lparr>next' := next' self\<rparr> else e)
                   (objs s a))"
    using s1(3) s2(5) s3(5) by (simp add: release_def)
  ultimately show ?thesis by blast
qed

lemma dtor_linked:
  assumes L: "linked s R" and live: "objs s this = Some self"
  shows "\<exists>s'. PyExecutable_dtor this s = Inr s' \<and> linked s' (\<lambda>c. remove1 this (R c)) \<and>
           (\<forall>a. objs s' a = None \<longleftrightarrow> a = this \<or> objs s a = None)"
proof -
  let ?c = "client' self"
  let ?xs = "R ?c"
  let ?n = "succ_in ?xs this"
  let ?p = "pred_in ?xs this"
  from L live have mem: "this \<in> set ?xs" unfolding linked_def by blast
  with L live have nx: "next' self = ?n" and pv: "prev' self = ?p"
    unfolding linked_def by fastforce+
  have dist: "distinct (R c')" and hd: "executables' s c' = head_ptr (R c')" for c'
    using L by (auto simp: linked_def)
  from dtor_effect [OF L live] obtain s' where
    run: "PyExecutable_dtor this s = Inr s'" and
    gil: "gil_held s'" and
    heads: "executables' s' = (executables' s)(?c :=
              (if head_ptr ?xs = Some this then ?n else head_ptr ?xs))" and
    gone: "objs s' this = None" and
    others: "\<And>a. a \<noteq> this \<Longrightarrow> objs s' a =
              map_option (\<lambda>e. if ?n = Some a then e\<lparr>prev' := ?p\<rparr> else e)
                (map_option (\<lambda>e. if ?p = Some a then e\<lparr>next' := ?n\<rparr> else e) (objs s a))"
    unfolding nx pv by blast
  have other_list: "remove1 this (R c') = R c'" if "c' \<noteq> ?c" for c'
  proof -
    from that L mem have "this \<notin> set (R c')" by (auto dest: linked_client_unique)
    then show ?thesis by (rule remove1_idem)
  qed
  have c1: "distinct (remove1 this (R c')) \<and> executables' s' c' = head_ptr (remove1 this (R c'))"
    for c'
  proof (cases "c' = ?c")
    case True
    with dist [of ?c] hd [of ?c] show ?thesis by (simp add: heads head_ptr_remove1)
  next
    case False
    with dist [of c'] hd [of c'] other_list [OF False] show ?thesis by (simp add: heads)
  qed
  have c2: "\<exists>e. objs s' a = Some e \<and> client' e = c' \<and>
              next' e = succ_in (remove1 this (R c')) a \<and>
              prev' e = pred_in (remove1 this (R c')) a"
    if a: "a \<in> set (remove1 this (R c'))" for c' a
  proof -
    from a dist [of c'] have ne: "a \<noteq> this" and am: "a \<in> set (R c')" by auto
    from L am obtain e where e: "objs s a = Some e" "client' e = c'"
      "next' e = succ_in (R c') a" "prev' e = pred_in (R c') a"
      unfolding linked_def by blast
    show ?thesis
    proof (cases "c' = ?c")
      case True
      have sp: "?p = Some a \<longleftrightarrow> succ_in ?xs a = Some this"
        using dist [of ?c] by (simp add: succ_pred)
      have ps: "?n = Some a \<longleftrightarrow> pred_in ?xs a = Some this"
        using dist [of ?c] by (simp add: succ_pred)
      from True e ne dist [of ?c] show ?thesis
        by (simp add: others [OF ne] succ_in_remove1 pred_in_remove1 sp ps)
    next
      case False
      have "?p \<noteq> Some a"
      proof
        assume "?p = Some a"
        then have "a \<in> set ?xs" by (auto dest: pred_in_mem)
        with L am False show False by (auto dest: linked_client_unique)
      qed
      moreover have "?n \<noteq> Some a"
      proof
        assume "?n = Some a"
        then have "a \<in> set ?xs" by (auto dest: succ_in_mem)
        with L am False show False by (auto dest: linked_client_unique)
      qed
      ultimately show ?thesis
        using e other_list [OF False] by (simp add: others [OF ne])
    qed
  qed
  have c3: "a \<in> set (remove1 this (R (client' e)))" if ae: "objs s' a = Some e" for a e
  proof -
    from ae gone have ne: "a \<noteq> this" by auto
    from ae others [OF ne] obtain e0 where "objs s a = Some e0" "client' e0 = client' e"
      by (auto split: if_splits)
    with L have "a \<in> set (R (client' e))" unfolding linked_def by metis
    with ne show ?thesis by simp
  qed
  have c4: "objs s' a = None \<longleftrightarrow> a = this \<or> objs s a = None" for a
    using gone others [of a] by (cases "a = this") auto
  from gil c1 c2 c3 have "linked s' (\<lambda>c. remove1 this (R c))"
    unfolding linked_def by blast
  with run c4 show ?thesis by blast
qed

lemma run_linked:
  "linked s R \<Longrightarrow> well_formed {a. objs s a \<noteq> None} ops \<Longrightarrow>
   \<exists>s'. run X ops s = Inr s' \<and> linked s' (fold abs_op ops R)"
proof (induction ops arbitrary: s R)
  case Nil
  then show ?case by simp
next
  case (Cons p ps)
  show ?case
  proof (cases p)
    case (Construct this c x t f)
    with Cons.prems have fresh: "objs s this = None"
      and wf: "well_formed (insert this {a. objs s a \<noteq> None}) ps" by auto
    from ctor_linked [OF Cons.prems(1) fresh, of X c x t f] obtain s1 where
      s1: "PyExecutable_ctor X this c x t f s = Inr s1" "linked s1 (R(c := this # R c))"
        "\<forall>a. objs s1 a = None \<longleftrightarrow> a \<noteq> this \<and> objs s a = None"
      by blast
    from s1(3) have "{a. objs s1 a \<noteq> None} = insert this {a. objs s a \<noteq> None}" by auto
    with wf have "well_formed {a. objs s1 a \<noteq> None} ps" by simp
    from Cons.IH [OF s1(2) this] s1(1) Construct show ?thesis by (simp add: fun_upd_def)
  next
    case (Destroy this)
    with Cons.prems obtain self where live: "objs s this = Some self"
      and wf: "well_formed ({a. objs s a \<noteq> None} - {this}) ps" by auto
    from dtor_linked [OF Cons.prems(1) live] obtain s1 where
      s1: "PyExecutable_dtor this s = Inr s1" "linked s1 (\<lambda>c. remove1 this (R c))"
        "\<forall>a. objs s1 a = None \<longleftrightarrow> a = this \<or> objs s a = None"
      by blast
    from s1(3) have "{a. objs s1 a \<noteq> None} = {a. objs s a \<noteq> None} - {this}" by auto
    with wf have "well_formed {a. objs s1 a \<noteq> None} ps" by simp
    from Cons.IH [OF s1(2) this] s1(1) Destroy show ?thesis by simp
  qed
qed

lemma linked_empty: "linked empty_heap (\<lambda>c. [])"
  by (simp add: linked_def empty_heap_def head_ptr_def)

lemma reachable_linked:
  assumes "well_formed {} ops"
  shows "\<exists>s. run X ops empty_heap = Inr s \<and> linked s (fold abs_op ops (\<lambda>c. []))"
proof -
  have "{a. objs empty_heap a \<noteq> None} = {}" by (simp add: empty_heap_def)
  with assms have "well_formed {a. objs empty_heap a \<noteq> None} ops" by simp
  with linked_empty show ?thesis by (rule run_linked)
qed

lemma linked_traverse_next:
  assumes "linked s R"
  shows "traverse_next (length (R c)) s (executables' s c) = Some (R c)"
proof -
  from assms have "distinct (R c)" "executables' s c = head_ptr (R c)"
    "\<forall>a \<in> set (R c). \<exists>e. objs s a = Some e \<and> next' e = succ_in (R c) a"
    unfolding linked_def by blast+
  then show ?thesis by (simp add: traverse_next_list)
qed

lemma linked_traverse_prev:
  assumes "linked s R"
  shows "traverse_prev (length (R c)) s (tail_ptr (R c)) = Some (rev (R c))"
proof -
  from assms have "distinct (R c)"
    "\<forall>a \<in> set (R c). \<exists>e. objs s a = Some e \<and> prev' e = pred_in (R c) a"
    unfolding linked_def by blast+
  then show ?thesis by (rule traverse_prev_list)
qed

lemma linked_members:
  assumes "linked s R"
  shows "set (R c) = {a. \<exists>e. objs s a = Some e \<and> client' e = c}"
proof
  show "set (R c) \<subseteq> {a. \<exists>e. objs s a = Some e \<and> client' e = c}"
    using assms by (auto dest: linked_live)
  show "{a. \<exists>e. objs s a = Some e \<and> client' e = c} \<subseteq> set (R c)"
    using assms unfolding linked_def by blast
qed

lemma linked_no_dangling:
  assumes L: "linked s R" and e: "objs s a = Some e" and p: "prev' e = Some b \<or> next' e = Some b"
  shows "objs s b \<noteq> None"
proof -
  from L e have mem: "a \<in> set (R (client' e))" unfolding linked_def by blast
  with L e have "next' e = succ_in (R (client' e)) a" "prev' e = pred_in (R (client' e)) a"
    unfolding linked_def by fastforce+
  with p have "b \<in> set (R (client' e))" by (auto dest: succ_in_mem pred_in_mem)
  with L show ?thesis by (auto dest: linked_live)
qed

lemma well_formed_constructions:
  "distinct (map fst es) \<Longrightarrow> \<forall>a \<in> set (map fst es). a \<notin> L \<Longrightarrow>
   well_formed L (constructions c es)"
proof (induction es arbitrary: L)
  case Nil
  then show ?case by (simp add: constructions_def)
next
  case (Cons e es)
  obtain this x t f where e: "e = (this, x, t, f)" by (cases e) auto
  from Cons.prems e have "distinct (map fst es)" "\<forall>a \<in> set (map fst es). a \<notin> insert this L"
    by auto
  then have "well_formed (insert this L) (constructions c es)" by (rule Cons.IH)
  with Cons.prems e show ?case by (simp add: constructions_def)
qed

lemma abs_constructions:
  "fold abs_op (constructions c es) R = R(c := rev (map fst es) @ R c)"
proof (induction es arbitrary: R)
  case Nil
  then show ?case by (simp add: constructions_def)
next
  case (Cons e es)
  obtain this x t f where e: "e = (this, x, t, f)" by (cases e) auto
  have "fold abs_op (constructions c (e # es)) R
        = fold abs_op (constructions c es) (R(c := this # R c))"
    by (simp add: constructions_def e)
  also have "\<dots> = (R(c := this # R c))(c := rev (map fst es) @ (R(c := this # R c)) c)"
    by (rule Cons.IH)
  finally show ?case by (simp add: e)
qed

section \<open>The registry\<close>

text \<open>
  C1. Take any state that a history has led to, and a client whose registry reads \<open>old\<close>
  there from the head along \<open>next_\<close> (for a new client \<open>old\<close> is empty). After
  constructing \<open>e1, \<dots>, eN\<close> for that client, in this order and at unused addresses, the
  registry reads \<open>eN, \<dots>, e1\<close> followed by \<open>old\<close>; and after destroying any one \<open>eK\<close> it
  reads the same list without \<open>eK\<close>.
\<close>

theorem registry_most_recent_first:
  assumes wf: "well_formed {} ops" and s: "run X ops empty_heap = Inr s"
    and old: "traverse_next n s (executables' s c) = Some old"
    and dist: "distinct (map fst es)"
    and fresh: "\<forall>a \<in> set (map fst es). objs s a = None"
  shows "\<exists>s'. run X (constructions c es) s = Inr s' \<and>
           traverse_next (length es + length old) s' (executables' s' c)
             = Some (rev (map fst es) @ old) \<and>
           (\<forall>k < length es. \<exists>s''.
              PyExecutable_dtor (fst (es ! k)) s' = Inr s'' \<and>
              traverse_next (length es + length old) s'' (executables' s'' c)
                = Some (remove1 (fst (es ! k)) (rev (map fst es) @ old)))"
proof -
  from reachable_linked [OF wf, of X] s obtain R where L: "linked s R" by auto
  from L have "traverse_next (length (R c)) s (executables' s c) = Some (R c)"
    by (rule linked_traverse_next)
  with old have oldR: "old = R c" by (rule traverse_next_unique)
  let ?R' = "R(c := rev (map fst es) @ R c)"
  from dist fresh have "well_formed {a. objs s a \<noteq> None} (constructions c es)"
    by (intro well_formed_constructions) auto
  from run_linked [OF L this, of X] obtain s' where
    s': "run X (constructions c es) s = Inr s'" and L': "linked s' ?R'"
    by (auto simp: abs_constructions)
  from L' have "traverse_next (length (?R' c)) s' (executables' s' c) = Some (?R' c)"
    by (rule linked_traverse_next)
  then have read: "traverse_next (length es + length old) s' (executables' s' c)
      = Some (rev (map fst es) @ old)"
    by (simp add: oldR)
  have "\<exists>s''. PyExecutable_dtor (fst (es ! k)) s' = Inr s'' \<and>
          traverse_next (length es + length old) s'' (executables' s'' c)
            = Some (remove1 (fst (es ! k)) (rev (map fst es) @ old))"
    if k: "k < length es" for k
  proof -
    let ?e = "fst (es ! k)"
    from k have mem: "?e \<in> set (?R' c)" by simp
    from linked_live [OF L' mem] obtain self where "objs s' ?e = Some self" by blast
    from dtor_linked [OF L' this] obtain s'' where
      d: "PyExecutable_dtor ?e s' = Inr s''" and L'': "linked s'' (\<lambda>c. remove1 ?e (?R' c))"
      by blast
    from L'' have "traverse_next (length (remove1 ?e (?R' c))) s'' (executables' s'' c)
        = Some (remove1 ?e (?R' c))"
      by (rule linked_traverse_next [where R = "\<lambda>c. remove1 ?e (?R' c)"])
    then have "traverse_next (length (remove1 ?e (?R' c)) + 1) s'' (executables' s'' c)
        = Some (remove1 ?e (?R' c))"
      by (rule traverse_next_fuel)
    moreover from k have "0 < length es" by (cases es) auto
    with mem have "length (remove1 ?e (?R' c)) + 1 = length es + length old"
      by (simp add: length_remove1 oldR)
    ultimately show ?thesis using d by (simp add: oldR)
  qed
  with s' read show ?thesis by blast
qed

theorem registry_most_recent_first_witness:
  "\<exists>s'. run echo_extern (constructions 0 three_executables) empty_heap = Inr s' \<and>
        traverse_next 3 s' (executables' s' 0) = Some [3, 2, 1] \<and>
        (\<forall>k < 3. \<exists>s''.
           PyExecutable_dtor (fst (three_executables ! k)) s' = Inr s'' \<and>
           traverse_next 3 s'' (executables' s'' 0)
             = Some (remove1 (fst (three_executables ! k)) [3, 2, 1]))"
proof -
  have "well_formed {} []" "run echo_extern [] empty_heap = Inr empty_heap"
    "traverse_next 0 empty_heap (executables' empty_heap 0) = Some []"
    "distinct (map fst three_executables)"
    "\<forall>a \<in> set (map fst three_executables). objs empty_heap a = None"
    by (simp_all add: empty_heap_def three_executables_def)
  from registry_most_recent_first [OF this]
  have "\<exists>s'. run echo_extern (constructions 0 three_executables) empty_heap = Inr s' \<and>
        traverse_next (length three_executables + length ([] :: addr list)) s'
          (executables' s' 0) = Some (rev (map fst three_executables) @ []) \<and>
        (\<forall>k < length three_executables. \<exists>s''.
           PyExecutable_dtor (fst (three_executables ! k)) s' = Inr s'' \<and>
           traverse_next (length three_executables + length ([] :: addr list)) s''
             (executables' s'' 0)
             = Some (remove1 (fst (three_executables ! k))
                      (rev (map fst three_executables) @ [])))" .
  moreover have "length three_executables = 3" "rev (map fst three_executables) = [3, 2, 1]"
    by (simp_all add: three_executables_def)
  ultimately show ?thesis by simp
qed

text \<open>
  C2. Every history of constructions and destructions runs without a fault, and in the
  state it leads to the registry of every client is a list without repetitions of exactly
  the live executables of that client, which reads the same from the head along \<open>next_\<close>
  as, reversed, from its last node along \<open>prev_\<close>; and no \<open>prev_\<close> or \<open>next_\<close> of a live
  executable points to an executable that is not live.
\<close>

theorem registry_doubly_linked:
  assumes wf: "well_formed {} ops"
  shows "\<exists>s. run X ops empty_heap = Inr s \<and>
           (\<forall>c. \<exists>xs. distinct xs \<and>
              set xs = {a. \<exists>e. objs s a = Some e \<and> client' e = c} \<and>
              traverse_next (length xs) s (executables' s c) = Some xs \<and>
              traverse_prev (length xs) s (tail_ptr xs) = Some (rev xs)) \<and>
           (\<forall>a e b. objs s a = Some e \<longrightarrow> prev' e = Some b \<or> next' e = Some b \<longrightarrow>
              objs s b \<noteq> None)"
proof -
  from reachable_linked [OF wf, of X] obtain s R where
    s: "run X ops empty_heap = Inr s" and L: "linked s R" by blast
  have "\<exists>xs. distinct xs \<and>
          set xs = {a. \<exists>e. objs s a = Some e \<and> client' e = c} \<and>
          traverse_next (length xs) s (executables' s c) = Some xs \<and>
          traverse_prev (length xs) s (tail_ptr xs) = Some (rev xs)" for c
  proof (intro exI conjI)
    from L show "distinct (R c)" by (simp add: linked_def)
    from L show "set (R c) = {a. \<exists>e. objs s a = Some e \<and> client' e = c}"
      by (rule linked_members)
    from L show "traverse_next (length (R c)) s (executables' s c) = Some (R c)"
      by (rule linked_traverse_next)
    from L show "traverse_prev (length (R c)) s (tail_ptr (R c)) = Some (rev (R c))"
      by (rule linked_traverse_prev)
  qed
  moreover have "\<forall>a e b. objs s a = Some e \<longrightarrow> prev' e = Some b \<or> next' e = Some b \<longrightarrow>
      objs s b \<noteq> None"
    using L by (blast dest: linked_no_dangling)
  ultimately show ?thesis using s by blast
qed

theorem registry_doubly_linked_witness:
  "well_formed {} [Construct 1 0 5 9 None, Construct 2 0 6 9 None, Construct 3 1 7 9 None,
      Destroy 1] \<and>
   (\<exists>s. run echo_extern
          [Construct 1 0 5 9 None, Construct 2 0 6 9 None, Construct 3 1 7 9 None, Destroy 1]
          empty_heap = Inr s \<and>
        (\<forall>c. \<exists>xs. distinct xs \<and>
           set xs = {a. \<exists>e. objs s a = Some e \<and> client' e = c} \<and>
           traverse_next (length xs) s (executables' s c) = Some xs \<and>
           traverse_prev (length xs) s (tail_ptr xs) = Some (rev xs)) \<and>
        (\<forall>a e b. objs s a = Some e \<longrightarrow> prev' e = Some b \<or> next' e = Some b \<longrightarrow>
           objs s b \<noteq> None))"
proof -
  have wf: "well_formed {} [Construct 1 0 5 9 None, Construct 2 0 6 9 None,
      Construct 3 1 7 9 None, Destroy 1]"
    by simp
  from wf registry_doubly_linked [OF wf, of echo_extern] show ?thesis by blast
qed

section \<open>The options of an executable\<close>

text \<open>
  C3. A constructed executable has \<open>untuple_result\<close> set, whatever the fingerprint; its
  launch identifier is \<open>Fingerprint32\<close> of the fingerprint when there is one, and the
  identifier of default-constructed options when there is none; and any other construction
  with the same fingerprint gets the same options.
\<close>

theorem ctor_options:
  assumes "PyExecutable_ctor X this c x t f s = Inr s'"
  shows "\<exists>e. objs s' this = Some e \<and> untuple_result (options' e) \<and>
           (\<forall>fp. f = Some fp \<longrightarrow> launch_id (options' e) = Fingerprint32 X fp) \<and>
           (f = None \<longrightarrow> launch_id (options' e) = launch_id (default_options X)) \<and>
           (\<forall>this2 c2 x2 t2 s2 s2' e2.
              PyExecutable_ctor X this2 c2 x2 t2 f s2 = Inr s2' \<and> objs s2' this2 = Some e2
              \<longrightarrow> options' e2 = options' e)"
proof -
  have opts: "\<exists>e. objs s2' this2 = Some e \<and> options' e = init_options X f"
    if "PyExecutable_ctor X this2 c2 x2 t2 f s2 = Inr s2'" for this2 c2 x2 t2 s2 s2'
    using that
    by (auto simp: PyExecutable_ctor_def set_prev_def set_head_def Let_def
             split: if_splits option.splits)
  from opts [OF assms] obtain e where e: "objs s' this = Some e" "options' e = init_options X f"
    by blast
  have "untuple_result (init_options X f)"
    by (simp add: init_options_def Let_def split: option.splits)
  moreover have "\<forall>fp. f = Some fp \<longrightarrow> launch_id (init_options X f) = Fingerprint32 X fp"
    "f = None \<longrightarrow> launch_id (init_options X f) = launch_id (default_options X)"
    by (simp_all add: init_options_def Let_def)
  moreover have "\<forall>this2 c2 x2 t2 s2 s2' e2.
              PyExecutable_ctor X this2 c2 x2 t2 f s2 = Inr s2' \<and> objs s2' this2 = Some e2
              \<longrightarrow> options' e2 = init_options X f"
    using opts by fastforce
  ultimately show ?thesis using e by simp
qed

theorem ctor_options_witness:
  "\<exists>s'. PyExecutable_ctor echo_extern 1 0 5 9 (Some ''abc'') empty_heap = Inr s' \<and>
        (\<exists>e. objs s' 1 = Some e \<and> untuple_result (options' e) \<and> launch_id (options' e) = 3)"
proof -
  obtain s' where h: "PyExecutable_ctor echo_extern 1 0 5 9 (Some ''abc'') empty_heap = Inr s'"
    by (simp add: PyExecutable_ctor_def empty_heap_def set_prev_def set_head_def)
  from ctor_options [OF h] h show ?thesis
    by (auto simp: echo_extern_def)
qed

section \<open>The loops of the execution functions\<close>

lemma PyBuffer_ctor_sel [simp]:
  "buf_client (PyBuffer_ctor c b tb) = c"
  "buffer (PyBuffer_ctor c b tb) = b"
  "buf_traceback (PyBuffer_ctor c b tb) = tb"
  by (simp_all add: PyBuffer_ctor_def)

lemma c_transform_eq:
  "i + length xs \<le> length out \<Longrightarrow>
   c_transform xs out i f = Inr (take i out @ map f xs @ drop (i + length xs) out)"
proof (induction xs arbitrary: out i)
  case Nil
  then show ?case by simp
next
  case (Cons x xs)
  from Cons.prems have i: "i < length out" and le: "Suc i + length xs \<le> length (out[i := f x])"
    by simp_all
  have "c_transform (x # xs) out i f = c_transform xs (out[i := f x]) (Suc i) f"
    using i by simp
  also have "\<dots> = Inr (take (Suc i) (out[i := f x]) @ map f xs
                      @ drop (Suc i + length xs) (out[i := f x]))"
    using le by (rule Cons.IH)
  also have "take (Suc i) (out[i := f x]) = take i out @ [f x]"
    using i by (simp add: take_Suc_conv_app_nth)
  also have "drop (Suc i + length xs) (out[i := f x]) = drop (i + length (x # xs)) out"
    by simp
  finally show ?case by simp
qed

lemma arg_buffers_of_eq: "arg_buffers_of args = Inr (map buffer args)"
  by (simp add: arg_buffers_of_def c_transform_eq)

lemma row_eq:
  "c_transform row (resize [] (length row)) 0 buffer = Inr (map buffer row)"
  by (simp add: resize_def c_transform_eq)

lemma fill_arg_buffers_eq:
  "computation \<le> length args \<Longrightarrow> length arg_buffers = length args \<Longrightarrow>
   \<forall>j. computation \<le> j \<and> j < length args \<longrightarrow> arg_buffers ! j = [] \<Longrightarrow>
   fill_arg_buffers args arg_buffers computation
     = Inr (take computation arg_buffers @ map (map buffer) (drop computation args))"
proof (induction args arg_buffers computation rule: fill_arg_buffers.induct)
  case (1 args arg_buffers computation)
  show ?case
  proof (cases "computation < length args")
    case False
    with "1.prems" show ?thesis by simp
  next
    case True
    let ?row = "map buffer (args ! computation)"
    from True "1.prems" have inb: "computation < length arg_buffers" by simp
    from True "1.prems" have "arg_buffers ! computation = []" by simp
    then have row: "c_transform (args ! computation)
        (resize (arg_buffers ! computation) (length (args ! computation))) 0 buffer = Inr ?row"
      by (simp add: row_eq)
    have "fill_arg_buffers args (arg_buffers[computation := ?row]) (Suc computation)
        = Inr (take (Suc computation) (arg_buffers[computation := ?row])
               @ map (map buffer) (drop (Suc computation) args))"
      using True inb row "1.prems" by (intro "1.IH") auto
    moreover have "take (Suc computation) (arg_buffers[computation := ?row])
        = take computation arg_buffers @ [?row]"
      using inb by (simp add: take_Suc_conv_app_nth)
    moreover have "drop computation args = args ! computation # drop (Suc computation) args"
      using True by (simp add: Cons_nth_drop_Suc)
    ultimately show ?thesis
      using True inb row by (simp del: fill_arg_buffers.simps add: fill_arg_buffers.simps [of args arg_buffers computation])
  qed
qed

lemma nested_arg_buffers_of_eq: "nested_arg_buffers_of args = Inr (map (map buffer) args)"
  by (simp add: nested_arg_buffers_of_def fill_arg_buffers_eq del: fill_arg_buffers.simps)

lemma push_outputs_eq:
  "push_outputs outputs c tb bs
     = outputs @ map (\<lambda>b. PyBuffer_ctor c b tb) bs"
  by (induction bs arbitrary: outputs) auto

lemma push_groups_eq:
  "computation \<le> length output_buffers \<Longrightarrow> length outputs = length output_buffers \<Longrightarrow>
   \<forall>j. computation \<le> j \<and> j < length output_buffers \<longrightarrow> outputs ! j = [] \<Longrightarrow>
   push_groups outputs c tb output_buffers computation
     = Inr (take computation outputs
            @ map (map (\<lambda>b. PyBuffer_ctor c b tb))
                (drop computation output_buffers))"
proof (induction outputs c tb output_buffers computation rule: push_groups.induct)
  case (1 outputs c tb output_buffers computation)
  show ?case
  proof (cases "computation < length output_buffers")
    case False
    with "1.prems" show ?thesis by simp
  next
    case True
    let ?mk = "\<lambda>b. PyBuffer_ctor c b tb"
    let ?row = "map ?mk (output_buffers ! computation)"
    let ?outs = "outputs[computation :=
        push_outputs (outputs ! computation) c tb (output_buffers ! computation)]"
    from True "1.prems" have inb: "computation < length outputs" by simp
    from True "1.prems" have "outputs ! computation = []" by simp
    then have row: "push_outputs (outputs ! computation) c tb (output_buffers ! computation) = ?row"
      by (simp add: push_outputs_eq)
    have "push_groups ?outs c tb output_buffers (Suc computation)
        = Inr (take (Suc computation) ?outs
               @ map (map ?mk) (drop (Suc computation) output_buffers))"
      using True inb "1.prems" by (intro "1.IH") auto
    moreover have "take (Suc computation) ?outs = take computation outputs @ [?row]"
      using inb row by (simp add: take_Suc_conv_app_nth)
    moreover have "drop computation output_buffers
        = output_buffers ! computation # drop (Suc computation) output_buffers"
      using True by (simp add: Cons_nth_drop_Suc)
    ultimately show ?thesis
      using True inb
      by (simp del: push_groups.simps
               add: push_groups.simps [of outputs c tb output_buffers computation])
  qed
qed

lemma push_groups_all:
  "push_groups (replicate (length output_buffers) []) c tb output_buffers 0
     = Inr (map (map (\<lambda>b. PyBuffer_ctor c b tb)) output_buffers)"
  by (simp add: push_groups_eq del: push_groups.simps)

lemma push_devices_eq: "push_devices devices W c ds = devices @ map (W c) ds"
  by (induction ds arbitrary: devices) auto

section \<open>The three execution functions\<close>

lemma PjRtExecute_eq:
  assumes "objs s this = Some self"
  shows "PjRtExecute X this args s =
     (case engine_Execute X (executable' self) args (options' self) of
        Inl status \<Rightarrow> Inr (Inl status, s\<lparr>gil_held := True\<rparr>)
      | Inr output_buffers \<Rightarrow>
          Inr (Inr (map (\<lambda>b. PyBuffer_ctor (client' self) b (Traceback_Get X (tracebacks_taken s)))
                      output_buffers),
               s\<lparr>gil_held := True, tracebacks_taken := Suc (tracebacks_taken s)\<rparr>))"
  using assms
  by (simp add: PjRtExecute_def gil_release_def gil_acquire_def Traceback_Get_call_def
        push_outputs_eq PyBuffer_ctor_def split: sum.splits)

lemma Execute_eq:
  assumes "objs s this = Some self"
  shows "Execute X this args s =
     (case engine_Execute X (executable' self) (map buffer args) (options' self) of
        Inl status \<Rightarrow> Inr (Inl status, s\<lparr>gil_held := True\<rparr>)
      | Inr output_buffers \<Rightarrow>
          Inr (Inr (map (\<lambda>b. PyBuffer_ctor (client' self) b (Traceback_Get X (tracebacks_taken s)))
                      output_buffers),
               s\<lparr>gil_held := True, tracebacks_taken := Suc (tracebacks_taken s)\<rparr>))"
  using assms
  by (simp add: Execute_def gil_release_def gil_acquire_def Traceback_Get_call_def
        push_outputs_eq arg_buffers_of_eq PyBuffer_ctor_def split: sum.splits)

lemma ExecuteOnLocalDevices_eq:
  assumes "objs s this = Some self"
  shows "ExecuteOnLocalDevices X this args s =
     (case engine_ExecuteOnLocalDevices X (executable' self) (map (map buffer) args)
             (options' self) of
        Inl status \<Rightarrow> Inr (Inl status, s\<lparr>gil_held := True\<rparr>)
      | Inr output_buffers \<Rightarrow>
          Inr (Inr (map (map (\<lambda>b. PyBuffer_ctor (client' self) b (Traceback_Get X (tracebacks_taken s))))
                      output_buffers),
               s\<lparr>gil_held := True, tracebacks_taken := Suc (tracebacks_taken s)\<rparr>))"
  using assms
  by (simp add: ExecuteOnLocalDevices_def gil_release_def gil_acquire_def
        Traceback_Get_call_def push_groups_all nested_arg_buffers_of_eq PyBuffer_ctor_def
        del: push_groups.simps split: sum.splits)

lemma example_live: "objs example_heap 1 = Some example_executable"
  by (simp add: example_heap_def)

text \<open>
  C4. When the engine returns the native arguments of a single-device call as its outputs,
  \<open>Execute\<close> on \<open>K\<close> buffers returns \<open>K\<close> buffers, and the \<open>k\<close>-th of them wraps the native
  buffer of the \<open>k\<close>-th argument.
\<close>

theorem Execute_echo:
  assumes "objs s this = Some self"
    and "engine_Execute X (executable' self) (map buffer args) (options' self)
           = Inr (map buffer args)"
  shows "\<exists>outputs s'. Execute X this args s = Inr (Inr outputs, s') \<and>
           length outputs = length args \<and>
           (\<forall>k < length args. buffer (outputs ! k) = buffer (args ! k))"
proof -
  let ?outputs = "map (\<lambda>b. PyBuffer_ctor (client' self) b (Traceback_Get X (tracebacks_taken s)))
                    (map buffer args)"
  from assms have "Execute X this args s
      = Inr (Inr ?outputs, s\<lparr>gil_held := True, tracebacks_taken := Suc (tracebacks_taken s)\<rparr>)"
    by (simp add: Execute_eq)
  moreover have "length ?outputs = length args" by simp
  moreover have "\<forall>k < length args. buffer (?outputs ! k) = buffer (args ! k)"
    by (simp add: PyBuffer_ctor_def)
  ultimately show ?thesis by blast
qed

theorem Execute_echo_witness:
  "\<exists>outputs s'.
     Execute echo_extern 1 [example_buffer 41, example_buffer 42, example_buffer 41] example_heap
       = Inr (Inr outputs, s') \<and>
     length outputs = 3 \<and> map buffer outputs = [41, 42, 41]"
proof -
  let ?args = "[example_buffer 41, example_buffer 42, example_buffer 41]"
  have e: "engine_Execute echo_extern (executable' example_executable) (map buffer ?args)
          (options' example_executable) = Inr (map buffer ?args)"
    by (simp add: echo_extern_def)
  from Execute_echo [OF example_live e] obtain outputs s' where
    r: "Execute echo_extern 1 ?args example_heap = Inr (Inr outputs, s')"
       "length outputs = 3"
       "\<forall>k < 3. buffer (outputs ! k) = buffer (?args ! k)"
    by auto
  from r(3) have "buffer (outputs ! 0) = 41" "buffer (outputs ! 1) = 42" "buffer (outputs ! 2) = 41"
    by (simp_all add: example_buffer_def)
  with r(2) have "map buffer outputs = [41, 42, 41]"
    by (simp add: list_eq_iff_nth_eq less_Suc_eq numeral_3_eq_3 numeral_2_eq_2)
  with r(1,2) show ?thesis by simp
qed

text \<open>
  C5. When the engine returns the groups \<open>output_buffers\<close>, \<open>ExecuteOnLocalDevices\<close> returns
  as many groups, of the same sizes, and its buffers wrap the native outputs group by
  group in the engine's order. The witness has groups of sizes 2, 1 and 3.
\<close>

theorem ExecuteOnLocalDevices_groups:
  assumes "objs s this = Some self"
    and "engine_ExecuteOnLocalDevices X (executable' self) (map (map buffer) args)
           (options' self) = Inr output_buffers"
  shows "\<exists>outputs s'. ExecuteOnLocalDevices X this args s = Inr (Inr outputs, s') \<and>
           map length outputs = map length output_buffers \<and>
           map (map buffer) outputs = output_buffers"
proof -
  let ?outputs = "map (map (\<lambda>b. PyBuffer_ctor (client' self) b (Traceback_Get X (tracebacks_taken s))))
                    output_buffers"
  from assms have "ExecuteOnLocalDevices X this args s
      = Inr (Inr ?outputs, s\<lparr>gil_held := True, tracebacks_taken := Suc (tracebacks_taken s)\<rparr>)"
    by (simp add: ExecuteOnLocalDevices_eq)
  moreover have "map length ?outputs = map length output_buffers"
    by (simp add: comp_def)
  moreover have "map (map buffer) ?outputs = output_buffers"
    by (simp add: comp_def PyBuffer_ctor_def)
  ultimately show ?thesis by blast
qed

theorem ExecuteOnLocalDevices_groups_witness:
  "\<exists>outputs s'.
     ExecuteOnLocalDevices echo_extern 1 example_groups example_heap = Inr (Inr outputs, s') \<and>
     map length outputs = [2, 1, 3] \<and>
     map (map buffer) outputs = [[1, 2], [3], [4, 5, 6]]"
proof -
  have e: "engine_ExecuteOnLocalDevices echo_extern (executable' example_executable)
             (map (map buffer) example_groups) (options' example_executable)
           = Inr [[1, 2], [3], [4, 5, 6]]"
    by (simp add: echo_extern_def example_groups_def example_buffer_def)
  from ExecuteOnLocalDevices_groups [OF example_live e] show ?thesis
    by (simp add: numeral_2_eq_2 numeral_3_eq_3)
qed

text \<open>
  C6. When the engine fails with \<open>status\<close>, each of the three calls returns that \<open>status\<close>
  and no buffers, takes no traceback, and leaves the live executables and the head of
  every registry as they were.
\<close>

theorem engine_failure_propagates:
  assumes "objs s this = Some self"
  shows "(engine_Execute X (executable' self) native_args (options' self) = Inl status \<longrightarrow>
            (\<exists>s'. PjRtExecute X this native_args s = Inr (Inl status, s') \<and>
               objs s' = objs s \<and> executables' s' = executables' s \<and>
               tracebacks_taken s' = tracebacks_taken s)) \<and>
         (engine_Execute X (executable' self) (map buffer args) (options' self) = Inl status \<longrightarrow>
            (\<exists>s'. Execute X this args s = Inr (Inl status, s') \<and>
               objs s' = objs s \<and> executables' s' = executables' s \<and>
               tracebacks_taken s' = tracebacks_taken s)) \<and>
         (engine_ExecuteOnLocalDevices X (executable' self) (map (map buffer) nested_args)
              (options' self) = Inl status \<longrightarrow>
            (\<exists>s'. ExecuteOnLocalDevices X this nested_args s = Inr (Inl status, s') \<and>
               objs s' = objs s \<and> executables' s' = executables' s \<and>
               tracebacks_taken s' = tracebacks_taken s))"
  using assms by (simp add: PjRtExecute_eq Execute_eq ExecuteOnLocalDevices_eq)

theorem engine_failure_propagates_witness:
  "(\<exists>s'. PjRtExecute failing_extern 1 [41, 42] example_heap
            = Inr (Inl (13, ''device fault''), s') \<and>
         objs s' = objs example_heap \<and> executables' s' = executables' example_heap \<and>
         tracebacks_taken s' = 0) \<and>
   (\<exists>s'. Execute failing_extern 1 [example_buffer 41] example_heap
            = Inr (Inl (13, ''device fault''), s') \<and>
         objs s' = objs example_heap \<and> executables' s' = executables' example_heap \<and>
         tracebacks_taken s' = 0) \<and>
   (\<exists>s'. ExecuteOnLocalDevices failing_extern 1 example_groups example_heap
            = Inr (Inl (13, ''device fault''), s') \<and>
         objs s' = objs example_heap \<and> executables' s' = executables' example_heap \<and>
         tracebacks_taken s' = 0)"
proof -
  have t: "tracebacks_taken example_heap = 0" by (simp add: example_heap_def)
  from engine_failure_propagates [OF example_live, of failing_extern "[41, 42]"
      "(13, ''device fault'')" "[example_buffer 41]" example_groups]
  show ?thesis by (simp add: failing_extern_def echo_extern_def t)
qed

text \<open>
  C7. When the engine succeeds, the call succeeds and returns one buffer for every native
  output; it takes exactly one traceback, and every buffer it returns, in every group,
  carries that one token.
\<close>

theorem traceback_shared:
  assumes "objs s this = Some self"
  shows "(engine_Execute X (executable' self) native_args (options' self) = Inr output_buffers
            \<longrightarrow>
            (\<exists>outputs s'. PjRtExecute X this native_args s = Inr (Inr outputs, s') \<and>
               length outputs = length output_buffers \<and>
               tracebacks_taken s' = Suc (tracebacks_taken s) \<and>
               (\<forall>b \<in> set outputs. buf_traceback b = Traceback_Get X (tracebacks_taken s)))) \<and>
         (engine_Execute X (executable' self) (map buffer args) (options' self)
            = Inr output_buffers \<longrightarrow>
            (\<exists>outputs s'. Execute X this args s = Inr (Inr outputs, s') \<and>
               length outputs = length output_buffers \<and>
               tracebacks_taken s' = Suc (tracebacks_taken s) \<and>
               (\<forall>b \<in> set outputs. buf_traceback b = Traceback_Get X (tracebacks_taken s)))) \<and>
         (engine_ExecuteOnLocalDevices X (executable' self) (map (map buffer) nested_args)
              (options' self) = Inr output_groups \<longrightarrow>
            (\<exists>outputs s'. ExecuteOnLocalDevices X this nested_args s = Inr (Inr outputs, s') \<and>
               map length outputs = map length output_groups \<and>
               tracebacks_taken s' = Suc (tracebacks_taken s) \<and>
               (\<forall>group \<in> set outputs. \<forall>b \<in> set group.
                  buf_traceback b = Traceback_Get X (tracebacks_taken s))))"
  using assms
  by (auto simp: PjRtExecute_eq Execute_eq ExecuteOnLocalDevices_eq comp_def)

theorem traceback_shared_witness:
  "(\<exists>outputs s'. PjRtExecute echo_extern 1 [41, 42] example_heap = Inr (Inr outputs, s') \<and>
      length outputs = 2 \<and> tracebacks_taken s' = 1 \<and>
      (\<forall>b \<in> set outputs. buf_traceback b = 100)) \<and>
   (\<exists>outputs s'. Execute echo_extern 1 [example_buffer 41, example_buffer 42] example_heap
        = Inr (Inr outputs, s') \<and>
      length outputs = 2 \<and> tracebacks_taken s' = 1 \<and>
      (\<forall>b \<in> set outputs. buf_traceback b = 100)) \<and>
   (\<exists>outputs s'. ExecuteOnLocalDevices echo_extern 1 example_groups example_heap
        = Inr (Inr outputs, s') \<and>
      map length outputs = [2, 1, 3] \<and> tracebacks_taken s' = 1 \<and>
      (\<forall>group \<in> set outputs. \<forall>b \<in> set group. buf_traceback b = 100))"
proof -
  have x: "tracebacks_taken example_heap = 0" "Traceback_Get echo_extern 0 = 100"
    by (simp_all add: example_heap_def echo_extern_def)
  have e1: "engine_Execute echo_extern (executable' example_executable) [41, 42]
              (options' example_executable) = Inr [41, 42]"
    and e2: "engine_Execute echo_extern (executable' example_executable)
              (map buffer [example_buffer 41, example_buffer 42])
              (options' example_executable) = Inr [41, 42]"
    and e3: "engine_ExecuteOnLocalDevices echo_extern (executable' example_executable)
              (map (map buffer) example_groups) (options' example_executable)
            = Inr [[1, 2], [3], [4, 5, 6]]"
    by (simp_all add: echo_extern_def example_buffer_def example_groups_def)
  have l: "length [41 :: PjRtBuffer, 42] = 2"
    "map length [[1 :: PjRtBuffer, 2], [3], [4, 5, 6]] = [2, 1, 3]"
    by simp_all
  from traceback_shared [OF example_live, of echo_extern "[41, 42]" "[41, 42]"
      "[example_buffer 41, example_buffer 42]" example_groups "[[1, 2], [3], [4, 5, 6]]"]
    e1 e2 e3
  show ?thesis unfolding x l by simp
qed

text \<open>
  C8. The native arguments built from buffer handles are the native buffers of the
  handles, one for one and in order, repeated handles included; the same holds for every
  group of a nested argument.
\<close>

theorem native_arguments:
  "arg_buffers_of args = Inr (map buffer args) \<and>
   nested_arg_buffers_of nested_args = Inr (map (map buffer) nested_args)"
  by (simp add: arg_buffers_of_eq nested_arg_buffers_of_eq)

section \<open>A call among other threads\<close>










text \<open>With no other thread at work these are the execution functions of before.\<close>

lemma among_alone:
  "PjRtExecute_among X [] this native_args s = PjRtExecute X this native_args s"
  "Execute_among X [] this args s = Execute X this args s"
  "ExecuteOnLocalDevices_among X [] this nested_args s = ExecuteOnLocalDevices X this nested_args s"
  by (auto simp: PjRtExecute_among_def PjRtExecute_def Execute_among_def Execute_def
        ExecuteOnLocalDevices_among_def ExecuteOnLocalDevices_def while_released_def
        gil_acquire_def gil_release_def Traceback_Get_call_def Let_def
      simp del: push_groups.simps split: option.splits sum.splits)




text \<open>
  C10. \<open>LocalDevices\<close> returns one entry for every device that the compiled program
  reports, in the same order, each made by \<open>WrapWithClient\<close> from the client of the
  executable and that device.
\<close>

theorem LocalDevices_wrapped:
  assumes "objs s this = Some self"
  shows "LocalDevices X WrapWithClient this s
           = Inr (map (WrapWithClient (client' self)) (local_devices X (executable' self)))"
  using assms by (simp add: LocalDevices_def push_devices_eq)

theorem LocalDevices_wrapped_witness:
  "LocalDevices echo_extern Pair 1 example_heap = Inr [(0, 7), (0, 8)]"
  using LocalDevices_wrapped [OF example_live, of echo_extern Pair]
  by (simp add: echo_extern_def example_executable_def)

end
